theory Spec2Isabelle
  imports Complex_Main
begin

section \<open>Random sequence with restrictions: the function \<open>randrest\<close> of RandRest.ipynb\<close>

text \<open>
  The notebook defines one function,
  \<^verbatim>\<open>randrest(pool, n, repeat=False, balance=False, maxit=100000)\<close>.
  It draws \<open>n + 1\<close> values from \<open>pool\<close> with \<open>np.random.choice\<close>, checks the first \<open>n\<close>
  of them against the two optional restrictions and draws again until the checks pass
  or the loop counter \<open>stop\<close> equals \<open>maxit\<close>.

  Conventions of the embedding:
  \<^item> \<open>n\<close> and \<open>maxit\<close> are Python integers: \<open>int\<close>.
  \<^item> \<open>repeat\<close> is \<open>False\<close> or an integer: \<open>int option\<close>, \<open>None\<close> for \<open>False\<close>.
  \<^item> \<open>balance\<close> is \<open>False\<close> or a finite float: \<open>rat option\<close>, the rational being the
    value of the float. The arithmetic \<open>n/np.size(pool) \<plusminus> balance\<close> is the one of IEEE
    doubles: every operation rounds its exact result to the nearest double
    (\<open>to_double\<close>).
  \<^item> the pool values are taken from a linearly ordered type (\<open>np.unique\<close> sorts them).
  \<^item> the random generator is a parameter: \<open>rng k j\<close> is the raw number that the
    \<open>k\<close>-th call of \<open>np.random.choice\<close> uses for position \<open>j\<close>.
\<close>

subsection \<open>Errors and the local state\<close>

datatype error = ValueError | ZeroDivisionError | StopIteration int

text \<open>
  What is kept of the run besides the returned value: \<open>draws\<close> is the number of arrays
  that \<open>np.random.choice\<close> has returned, \<open>stop\<close> is the local variable of that name,
  \<open>None\<close> as long as it has not been assigned (it is assigned only in the \<open>else\<close>
  branch, directly before the \<open>while\<close> loop).
\<close>

record trace =
  draws :: nat
  stop :: "int option"

type_synonym rng = "nat \<Rightarrow> nat \<Rightarrow> nat"

subsection \<open>The numpy operations that the function uses\<close>

text \<open>
  \<open>np.random.choice(pool, sz)\<close>: \<open>sz\<close> independent draws from \<open>pool\<close>, each one
  \<open>pool[i]\<close> for a random index \<open>i\<close>. numpy raises \<open>ValueError\<close> for a negative
  \<open>sz\<close> and for an empty \<open>pool\<close> unless no samples are taken.
\<close>

definition choice :: "'a list \<Rightarrow> int \<Rightarrow> rng \<Rightarrow> nat \<Rightarrow> error + 'a list" where
  "choice pool sz rng k =
     (if sz < 0 then Inl ValueError
      else if pool = [] \<and> sz \<noteq> 0 then Inl ValueError
      else Inr (map (\<lambda>j. pool ! (rng k j mod length pool)) [0..<nat sz]))"

text \<open>
  Python slicing \<open>xs[lo:hi]\<close> with step 1: a negative index counts from the end,
  and both indices are clamped to \<open>[0, len(xs)]\<close>.
\<close>

definition slice_index :: "nat \<Rightarrow> int \<Rightarrow> nat" where
  "slice_index len i = (if i < 0 then nat (max 0 (int len + i)) else min (nat i) len)"

definition py_slice :: "'a list \<Rightarrow> int \<Rightarrow> int \<Rightarrow> 'a list" where
  "py_slice xs lo hi =
     (let a = slice_index (length xs) lo; b = slice_index (length xs) hi
      in take (b - a) (drop a xs))"

text \<open>
  \<open>repcheck\<close> starts as the Python scalar \<open>True\<close> and becomes a boolean array with the
  first \<open>*=\<close>. The arrays multiplied here always have the same length
  (lemma \<open>repcheck_slices_same_length\<close>), so that no broadcasting happens.
\<close>

datatype npbool = Scalar bool | Array "bool list"

definition array_eq :: "'a list \<Rightarrow> 'a list \<Rightarrow> bool list" where
  "array_eq xs ys = map (\<lambda>(x, y). x = y) (zip xs ys)"

fun np_mul :: "npbool \<Rightarrow> bool list \<Rightarrow> npbool" where
  "np_mul (Scalar b) ys = Array (map (\<lambda>y. b \<and> y) ys)"
| "np_mul (Array xs) ys = Array (map (\<lambda>(x, y). x \<and> y) (zip xs ys))"

fun np_any :: "npbool \<Rightarrow> bool" where
  "np_any (Scalar b) = b"
| "np_any (Array xs) = (True \<in> set xs)"

text \<open>\<open>np.unique(xs, return_counts=True)\<close>: the sorted distinct values and their counts.\<close>

definition unique_counts :: "'a::linorder list \<Rightarrow> 'a list \<times> nat list" where
  "unique_counts xs = (let values = sort (remdups xs) in (values, map (count_list xs) values))"

subsection \<open>Floating-point numbers\<close>

text \<open>
  A double is a rational \<open>m * 2^e\<close> with \<open>|m| < 2^53\<close> and \<open>e \<ge> -1074\<close>. Python's true
  division of two integers, the conversion of an integer to a float, and the addition
  and subtraction of floats all return the double nearest to the exact result, a tie
  going to the double with the even significand. \<open>exponent_of x\<close> is the position of
  the leading bit of \<open>x \<noteq> 0\<close>, that is \<open>\<lfloor>log\<^sub>2 |x|\<rfloor>\<close>; it is read off the bit lengths of
  numerator and denominator. Overflow is left out: the numbers of this function stay
  far below \<open>2^1024\<close> (array lengths are below \<open>2^63\<close>), and so are infinities and NaN.
\<close>

definition pow2 :: "int \<Rightarrow> rat" where
  "pow2 e = (if 0 \<le> e then 2 ^ nat e else 1 / 2 ^ nat (- e))"

function bit_length :: "int \<Rightarrow> int" where
  "bit_length a = (if a \<le> 0 then 0 else 1 + bit_length (a div 2))"
  by pat_completeness auto
termination
  by (relation "measure nat") auto

definition exponent_of :: "rat \<Rightarrow> int" where
  "exponent_of x =
     (let (a, b) = quotient_of \<bar>x\<bar>;
          d = bit_length a - bit_length b
      in if pow2 d \<le> \<bar>x\<bar> then d else d - 1)"

definition round_half_even :: "rat \<Rightarrow> int" where
  "round_half_even x =
     (let f = \<lfloor>x\<rfloor>; r = x - of_int f
      in if r < 1 / 2 then f else if 1 / 2 < r then f + 1 else if even f then f else f + 1)"

definition to_double :: "rat \<Rightarrow> rat" where
  "to_double x =
     (if x = 0 then 0
      else let e = max (exponent_of x - 52) (- 1074)
           in of_int (round_half_even (x / pow2 e)) * pow2 e)"

subsection \<open>The two checks\<close>

text \<open>Python truthiness of an argument that is \<open>False\<close> or a number: \<open>False\<close> and 0 are false.\<close>

definition is_set :: "'b::zero option \<Rightarrow> bool" where
  "is_set p = (case p of None \<Rightarrow> False | Some v \<Rightarrow> v \<noteq> 0)"

text \<open>
  \<^verbatim>\<open>
  repcheck = True
  for i in np.arange(1, repeat+1):
      repcheck *= samples[i-1:-repeat+i-2] == samples[i:-repeat+i-1]
  \<close>
\<close>

definition repcheck_step :: "'a list \<Rightarrow> int \<Rightarrow> npbool \<Rightarrow> int \<Rightarrow> npbool" where
  "repcheck_step samples repeat acc i =
     np_mul acc (array_eq (py_slice samples (i - 1) (- repeat + i - 2))
                          (py_slice samples i (- repeat + i - 1)))"

definition repcheck :: "'a list \<Rightarrow> int \<Rightarrow> npbool" where
  "repcheck samples repeat = foldl (repcheck_step samples repeat) (Scalar True) [1..repeat]"

text \<open>
  \<^verbatim>\<open>
  values, counts = np.unique(samples[:-1], return_counts=True)
  balcheck = np.any(counts < n/np.size(pool)-balance) or np.any(counts > n/np.size(pool)+balance)
  \<close>
  The division is Python's true division of two integers; it raises for an empty pool,
  which \<open>check_samples\<close> below accounts for. Its result is a float, \<open>balance\<close> is
  converted to one if it is an integer, and the integer array \<open>counts\<close> is converted to
  floats for the comparison with the float bound.
\<close>

definition balcheck :: "'a::linorder list \<Rightarrow> int \<Rightarrow> 'a list \<Rightarrow> rat \<Rightarrow> bool" where
  "balcheck pool n samples balance =
     (let (values, counts) = unique_counts (butlast samples)
      in (\<exists>c \<in> set counts. to_double (of_nat c)
            < to_double (to_double (of_int n / of_nat (length pool)) - to_double balance))
       \<or> (\<exists>c \<in> set counts. to_double (of_nat c)
            > to_double (to_double (of_int n / of_nat (length pool)) + to_double balance)))"

text \<open>The value of \<open>check\<close> for one candidate: \<open>np.any(repcheck) or balcheck\<close>.\<close>

definition check_samples ::
  "'a::linorder list \<Rightarrow> int \<Rightarrow> int option \<Rightarrow> rat option \<Rightarrow> 'a list \<Rightarrow> error + bool" where
  "check_samples pool n repeat balance samples =
     (let rc = (if is_set repeat then repcheck samples (the repeat) else Scalar False)
      in if is_set balance
         then (if pool = [] then Inl ZeroDivisionError
               else Inr (np_any rc \<or> balcheck pool n samples (the balance)))
         else Inr (np_any rc \<or> False))"

subsection \<open>The function\<close>

text \<open>The last two lines: \<open>samples[:-1]\<close> with its distinct values and their counts.\<close>

definition result_of :: "'a::linorder list \<Rightarrow> 'a list \<times> 'a list \<times> nat list" where
  "result_of samples =
     (let (values, counts) = unique_counts (butlast samples) in (butlast samples, values, counts))"

text \<open>
  The \<open>while check\<close> loop. \<open>stop\<close> is the loop counter and \<open>k\<close> the number of draws made
  so far. The loop need not end (\<open>stop == maxit\<close> is never true for \<open>maxit < 1\<close>), a
  run that does not return has the value \<open>None\<close>.
\<close>

partial_function (option) while_check ::
  "'a::linorder list \<Rightarrow> int \<Rightarrow> int option \<Rightarrow> rat option \<Rightarrow> int \<Rightarrow> rng \<Rightarrow> int \<Rightarrow> nat
     \<Rightarrow> ((error + 'a list) \<times> trace) option" where
  "while_check pool n repeat balance maxit rng stp k =
     (case choice pool (n + 1) rng k of
        Inl e \<Rightarrow> Some (Inl e, \<lparr>draws = k, stop = Some stp\<rparr>)
      | Inr samples \<Rightarrow>
          (case check_samples pool n repeat balance samples of
             Inl e \<Rightarrow> Some (Inl e, \<lparr>draws = k + 1, stop = Some stp\<rparr>)
           | Inr check \<Rightarrow>
               if check \<and> stp = maxit
               then Some (Inl (StopIteration maxit), \<lparr>draws = k + 1, stop = Some stp\<rparr>)
               else if check
               then while_check pool n repeat balance maxit rng (stp + 1) (k + 1)
               else Some (Inr samples, \<lparr>draws = k + 1, stop = Some (stp + 1)\<rparr>)))"

declare while_check.simps [code]

definition randrest ::
  "'a::linorder list \<Rightarrow> int \<Rightarrow> int option \<Rightarrow> rat option \<Rightarrow> int \<Rightarrow> rng
     \<Rightarrow> ((error + 'a list \<times> 'a list \<times> nat list) \<times> trace) option" where
  "randrest pool n repeat balance maxit rng =
     (if \<not> is_set repeat \<and> \<not> is_set balance
      then (case choice pool (n + 1) rng 0 of
              Inl e \<Rightarrow> Some (Inl e, \<lparr>draws = 0, stop = None\<rparr>)
            | Inr samples \<Rightarrow> Some (Inr (result_of samples), \<lparr>draws = 1, stop = None\<rparr>))
      else (case while_check pool n repeat balance maxit rng 1 0 of
              None \<Rightarrow> None
            | Some (Inl e, t) \<Rightarrow> Some (Inl e, t)
            | Some (Inr samples, t) \<Rightarrow> Some (Inr (result_of samples), t)))"

subsection \<open>One pass through the loop body\<close>

text \<open>
  The body of the loop as a function of the counter and of the number of draws: the
  outcome with which the pass leaves the loop (an error or the accepted candidate), or
  \<open>None\<close> when the loop goes on to the next pass.
\<close>

definition iteration ::
  "'a::linorder list \<Rightarrow> int \<Rightarrow> int option \<Rightarrow> rat option \<Rightarrow> int \<Rightarrow> rng \<Rightarrow> int \<Rightarrow> nat
     \<Rightarrow> ((error + 'a list) \<times> trace) option" where
  "iteration pool n repeat balance maxit rng stp k =
     (case choice pool (n + 1) rng k of
        Inl e \<Rightarrow> Some (Inl e, \<lparr>draws = k, stop = Some stp\<rparr>)
      | Inr samples \<Rightarrow>
          (case check_samples pool n repeat balance samples of
             Inl e \<Rightarrow> Some (Inl e, \<lparr>draws = k + 1, stop = Some stp\<rparr>)
           | Inr check \<Rightarrow>
               if check \<and> stp = maxit
               then Some (Inl (StopIteration maxit), \<lparr>draws = k + 1, stop = Some stp\<rparr>)
               else if check then None
               else Some (Inr samples, \<lparr>draws = k + 1, stop = Some (stp + 1)\<rparr>)))"

subsection \<open>Random sources used in the examples\<close>

text \<open>Always index 0; the indices \<open>0, 1, 2, \<dots>\<close> in turn; each index three times.\<close>

definition rng_first :: rng where
  "rng_first k j = 0"

definition rng_cycle :: rng where
  "rng_cycle k j = j"

definition rng_triples :: rng where
  "rng_triples k j = j div 3"

text \<open>As \<open>rng_cycle\<close> on the positions 0, 1 and 2, index 1 from position 3 on.\<close>

definition rng_dummy :: rng where
  "rng_dummy k j = (if j < 3 then j else 1)"

section \<open>The loop in terms of its passes\<close>

lemma while_check_unfold:
  "while_check pool n repeat balance maxit rng stp k =
     (case iteration pool n repeat balance maxit rng stp k of
        Some r \<Rightarrow> Some r
      | None \<Rightarrow> while_check pool n repeat balance maxit rng (stp + 1) (k + 1))"
  by (subst while_check.simps) (simp add: iteration_def split: sum.splits)

lemma while_check_leaves:
  assumes "iteration pool n repeat balance maxit rng (stp + int j) (k + j) = Some r"
    and "\<forall>i<j. iteration pool n repeat balance maxit rng (stp + int i) (k + i) = None"
  shows "while_check pool n repeat balance maxit rng stp k = Some r"
  using assms
proof (induction j arbitrary: stp k)
  case 0
  then show ?case by (subst while_check_unfold) simp
next
  case (Suc j)
  from Suc.prems(2) have first: "iteration pool n repeat balance maxit rng stp k = None"
    by (metis add.right_neutral of_nat_0 zero_less_Suc)
  have "while_check pool n repeat balance maxit rng (stp + 1) (k + 1) = Some r"
  proof (rule Suc.IH)
    show "iteration pool n repeat balance maxit rng (stp + 1 + int j) (k + 1 + j) = Some r"
      using Suc.prems(1) by (simp add: algebra_simps)
    show "\<forall>i<j. iteration pool n repeat balance maxit rng (stp + 1 + int i) (k + 1 + i) = None"
    proof (intro allI impI)
      fix i assume "i < j"
      then have "iteration pool n repeat balance maxit rng (stp + int (Suc i)) (k + Suc i) = None"
        using Suc.prems(2) by (meson Suc_mono)
      then show "iteration pool n repeat balance maxit rng (stp + 1 + int i) (k + 1 + i) = None"
        by (simp add: algebra_simps)
    qed
  qed
  with first show ?case by (subst while_check_unfold) simp
qed

lemma while_check_SomeD:
  "while_check pool n repeat balance maxit rng stp k = Some r \<Longrightarrow>
     \<exists>j. iteration pool n repeat balance maxit rng (stp + int j) (k + j) = Some r
           \<and> (\<forall>i<j. iteration pool n repeat balance maxit rng (stp + int i) (k + i) = None)"
proof (induction rule: while_check.raw_induct[rotated 1, consumes 1])
  case (1 wc pool n repeat balance maxit rng stp k r)
  show ?case
  proof (cases "iteration pool n repeat balance maxit rng stp k")
    case None
    then have "wc pool n repeat balance maxit rng (stp + 1) (k + 1) = Some r"
      using "1"(2) by (auto simp: iteration_def split: sum.splits if_splits)
    from "1"(1)[OF this] obtain j where
      j: "iteration pool n repeat balance maxit rng (stp + 1 + int j) (k + 1 + j) = Some r"
         "\<forall>i<j. iteration pool n repeat balance maxit rng (stp + 1 + int i) (k + 1 + i) = None"
      by blast
    have "iteration pool n repeat balance maxit rng (stp + int (Suc j)) (k + Suc j) = Some r"
      using j(1) by (simp add: algebra_simps)
    moreover have "\<forall>i<Suc j. iteration pool n repeat balance maxit rng (stp + int i) (k + i) = None"
    proof (intro allI impI)
      fix i assume "i < Suc j"
      show "iteration pool n repeat balance maxit rng (stp + int i) (k + i) = None"
      proof (cases i)
        case 0 then show ?thesis using None by simp
      next
        case (Suc i')
        then have "i' < j" using \<open>i < Suc j\<close> by simp
        then show ?thesis using j(2) Suc by (simp add: algebra_simps)
      qed
    qed
    ultimately show ?thesis by blast
  next
    case (Some r')
    then have "r' = r"
      using "1"(2) by (auto simp: iteration_def split: sum.splits if_splits)
    then show ?thesis using Some by (intro exI[of _ 0]) simp
  qed
qed

lemma while_check_None:
  assumes "\<forall>j. iteration pool n repeat balance maxit rng (stp + int j) (k + j) = None"
  shows "while_check pool n repeat balance maxit rng stp k = None"
proof (cases "while_check pool n repeat balance maxit rng stp k")
  case (Some r)
  from while_check_SomeD[OF this] assms show ?thesis by auto
qed simp

section \<open>Rounding to doubles\<close>

text \<open>
  Some values of \<open>to_double\<close>: integers below \<open>2^53\<close> are doubles, \<open>0.1\<close> is the double
  \<open>3602879701896397 / 2^55\<close>, and a number halfway between two doubles goes to the one
  with the even significand, on both sides of zero.
\<close>

lemma to_double_examples:
  "to_double 0 = 0 \<and> to_double 1 = 1 \<and> to_double (- 40) = - 40
   \<and> to_double (1 / 10) = 3602879701896397 / 2 ^ 55
   \<and> to_double (2 / 3) = 6004799503160661 / 2 ^ 53
   \<and> to_double (2 ^ 53 + 1) = 2 ^ 53
   \<and> to_double (2 ^ 53 + 3) = 2 ^ 53 + 4
   \<and> to_double (- (2 ^ 53 + 1)) = - (2 ^ 53)"
  by code_simp

section \<open>The repeat check\<close>

text \<open>
  Both slices of pass \<open>i\<close> have \<open>len(samples) - repeat - 1\<close> elements, the first starting
  at \<open>i - 1\<close> and the second at \<open>i\<close>.
\<close>

lemma py_slice_left:
  assumes "1 \<le> i" "i \<le> r"
  shows "py_slice xs (i - 1) (- r + i - 2) = take (length xs - nat r - 1) (drop (nat i - 1) xs)"
proof (cases "nat i - 1 \<le> length xs")
  case True
  then show ?thesis using assms
    by (auto simp: py_slice_def slice_index_def Let_def min_def max_def nat_diff_distrib
        intro!: arg_cong2[where f = take])
next
  case False
  then show ?thesis using assms
    by (simp add: py_slice_def slice_index_def Let_def min_def max_def)
qed

lemma py_slice_right:
  assumes "1 \<le> i" "i \<le> r"
  shows "py_slice xs i (- r + i - 1) = take (length xs - nat r - 1) (drop (nat i) xs)"
proof (cases "nat i \<le> length xs")
  case True
  then show ?thesis using assms
    by (auto simp: py_slice_def slice_index_def Let_def min_def max_def nat_diff_distrib
        intro!: arg_cong2[where f = take])
next
  case False
  then show ?thesis using assms
    by (simp add: py_slice_def slice_index_def Let_def min_def max_def)
qed

lemma repcheck_slices_same_length:
  assumes "1 \<le> i" "i \<le> r"
  shows "length (py_slice xs (i - 1) (- r + i - 2)) = length (py_slice xs i (- r + i - 1))"
  using py_slice_left[OF assms, of xs] py_slice_right[OF assms, of xs] assms by simp


lemma array_eq_slices:
  assumes "1 \<le> i" "i \<le> r"
  shows "array_eq (py_slice xs (i - 1) (- r + i - 2)) (py_slice xs i (- r + i - 1))
         = map (\<lambda>j. xs ! (j + nat i - 1) = xs ! (j + nat i)) [0..<length xs - nat r - 1]"
proof -
  let ?L = "length xs - nat r - 1"
  have len: "length (take ?L (drop (nat i - 1) xs)) = ?L" "length (take ?L (drop (nat i) xs)) = ?L"
    using assms by auto
  have "array_eq (take ?L (drop (nat i - 1) xs)) (take ?L (drop (nat i) xs))
        = map (\<lambda>j. xs ! (j + nat i - 1) = xs ! (j + nat i)) [0..<?L]"
  proof (rule nth_equalityI)
    show "length (array_eq (take ?L (drop (nat i - 1) xs)) (take ?L (drop (nat i) xs)))
          = length (map (\<lambda>j. xs ! (j + nat i - 1) = xs ! (j + nat i)) [0..<?L])"
      using len by (simp add: array_eq_def)
  next
    fix j assume "j < length (array_eq (take ?L (drop (nat i - 1) xs)) (take ?L (drop (nat i) xs)))"
    then have j: "j < ?L" using len by (simp add: array_eq_def)
    then have bound: "nat i + j < length xs" using assms by linarith
    have idx: "nat i - 1 + j = j + nat i - 1" "nat i + j = j + nat i"
      using assms by linarith+
    have "array_eq (take ?L (drop (nat i - 1) xs)) (take ?L (drop (nat i) xs)) ! j
          = (xs ! (nat i - 1 + j) = xs ! (nat i + j))"
    proof -
      have lj: "j < length (take ?L (drop (nat i - 1) xs))" "j < length (take ?L (drop (nat i) xs))"
        using j len by (simp_all only:)
      have "array_eq (take ?L (drop (nat i - 1) xs)) (take ?L (drop (nat i) xs)) ! j
            = (take ?L (drop (nat i - 1) xs) ! j = take ?L (drop (nat i) xs) ! j)"
        unfolding array_eq_def using lj by (simp only: nth_map nth_zip length_zip min_less_iff_conj split_conv)
      moreover have "take ?L (drop (nat i - 1) xs) ! j = xs ! (nat i - 1 + j)"
        using j bound by (simp only: nth_take) (rule nth_drop, linarith)
      moreover have "take ?L (drop (nat i) xs) ! j = xs ! (nat i + j)"
        using j bound by (simp only: nth_take) (rule nth_drop, linarith)
      ultimately show ?thesis by (simp only:)
    qed
    also have "\<dots> = (xs ! (j + nat i - 1) = xs ! (j + nat i))"
      by (simp only: idx)
    also have "\<dots> = map (\<lambda>j. xs ! (j + nat i - 1) = xs ! (j + nat i)) [0..<?L] ! j"
      using j by simp
    finally show "array_eq (take ?L (drop (nat i - 1) xs)) (take ?L (drop (nat i) xs)) ! j
               = map (\<lambda>j. xs ! (j + nat i - 1) = xs ! (j + nat i)) [0..<?L] ! j" .
  qed
  then show ?thesis
    using py_slice_left[OF assms, of xs] py_slice_right[OF assms, of xs] by simp
qed

lemma repcheck_fold:
  assumes "1 \<le> k" "int k \<le> r"
  shows "foldl (repcheck_step xs r) (Scalar True) [1..int k]
         = Array (map (\<lambda>j. \<forall>i<k. xs ! (j + i) = xs ! (j + i + 1)) [0..<length xs - nat r - 1])"
  using assms
proof (induction k)
  case 0
  then show ?case by simp
next
  case (Suc k)
  let ?L = "length xs - nat r - 1"
  have split: "[1..int (Suc k)] = [1..int k] @ [int k + 1]"
    using upto_rec2[of 1 "int (Suc k)"] by (simp add: add.commute)
  have here: "array_eq (py_slice xs (int k + 1 - 1) (- r + (int k + 1) - 2))
                       (py_slice xs (int k + 1) (- r + (int k + 1) - 1))
              = map (\<lambda>j. xs ! (j + k) = xs ! (j + k + 1)) [0..<?L]"
    using array_eq_slices[of "int k + 1" r xs] Suc.prems by (simp add: nat_add_distrib)
  show ?case
  proof (cases "k = 0")
    case True
    then show ?thesis using here by (simp add: repcheck_step_def)
  next
    case False
    then have "foldl (repcheck_step xs r) (Scalar True) [1..int k]
               = Array (map (\<lambda>j. \<forall>i<k. xs ! (j + i) = xs ! (j + i + 1)) [0..<?L])"
      using Suc by simp
    then have "foldl (repcheck_step xs r) (Scalar True) [1..int (Suc k)]
               = Array (map (\<lambda>j. (\<forall>i<k. xs ! (j + i) = xs ! (j + i + 1)) \<and> xs ! (j + k) = xs ! (j + k + 1)) [0..<?L])"
      unfolding split foldl_append using here
      by (simp add: repcheck_step_def zip_map1 zip_map2 zip_same_conv_map del: upt_Suc)
    moreover have "\<And>j. ((\<forall>i<k. xs ! (j + i) = xs ! (j + i + 1)) \<and> xs ! (j + k) = xs ! (j + k + 1))
                    = (\<forall>i<Suc k. xs ! (j + i) = xs ! (j + i + 1))"
      by (auto simp: less_Suc_eq)
    ultimately show ?thesis by (simp only:)
  qed
qed

text \<open>
  For a positive \<open>repeat\<close> the check finds a position \<open>j\<close> from which \<open>repeat\<close> neighbouring
  pairs are equal, the whole window lying before the last element of \<open>samples\<close>.
\<close>

lemma repcheck_any:
  assumes "1 \<le> r"
  shows "np_any (repcheck xs r)
         \<longleftrightarrow> (\<exists>j. j + nat r < length xs - 1 \<and> (\<forall>i<nat r. xs ! (j + i) = xs ! (j + i + 1)))"
proof -
  have "repcheck xs r = Array (map (\<lambda>j. \<forall>i<nat r. xs ! (j + i) = xs ! (j + i + 1)) [0..<length xs - nat r - 1])"
    unfolding repcheck_def using repcheck_fold[of "nat r" r xs] assms by simp
  then have "np_any (repcheck xs r)
         \<longleftrightarrow> (\<exists>j<length xs - nat r - 1. \<forall>i<nat r. xs ! (j + i) = xs ! (j + i + 1))"
    by (auto simp: image_iff)
  also have "\<dots> \<longleftrightarrow> (\<exists>j. j + nat r < length xs - 1 \<and> (\<forall>i<nat r. xs ! (j + i) = xs ! (j + i + 1)))"
  proof -
    have "\<And>j. j < length xs - nat r - 1 \<longleftrightarrow> j + nat r < length xs - 1" by linarith
    then show ?thesis by (simp only:)
  qed
  finally show ?thesis .
qed

section \<open>Draws, checks and returned values\<close>

lemma choice_length: "choice pool m rng k = Inr xs \<Longrightarrow> int (length xs) = m"
  by (auto simp: choice_def split: if_splits)

lemma choice_subset: "choice pool m rng k = Inr xs \<Longrightarrow> set xs \<subseteq> set pool"
  by (auto simp: choice_def split: if_splits)

lemma choice_Inr:
  assumes "pool \<noteq> []" "0 \<le> m"
  shows "\<exists>xs. choice pool m rng k = Inr xs"
  using assms by (simp add: choice_def)

lemma choice_error: "choice pool m rng k = Inl e \<Longrightarrow> e = ValueError \<and> (m < 0 \<or> pool = [] \<and> m \<noteq> 0)"
  by (auto simp: choice_def split: if_splits)

lemma choice_same_error:
  "choice pool m rng1 k = Inl e \<longleftrightarrow> choice pool m rng2 k = Inl e"
  by (simp add: choice_def)

lemma balcheck_iff:
  "balcheck pool n samples b \<longleftrightarrow>
     (\<exists>v \<in> set (butlast samples).
        to_double (of_nat (count_list (butlast samples) v))
          < to_double (to_double (of_int n / of_nat (length pool)) - to_double b)
      \<or> to_double (to_double (of_int n / of_nat (length pool)) + to_double b)
          < to_double (of_nat (count_list (butlast samples) v)))"
  by (auto simp: balcheck_def unique_counts_def Let_def)

lemma check_samples_Inr:
  assumes "pool \<noteq> []"
  shows "\<exists>b. check_samples pool n repeat balance xs = Inr b"
  using assms by (simp add: check_samples_def Let_def)

lemma check_samples_repeat:
  assumes "check_samples pool n (Some r) balance xs = Inr False" "1 \<le> r"
  shows "\<not> np_any (repcheck xs r)"
  using assms by (auto simp: check_samples_def is_set_def Let_def split: if_splits)

lemma result_of_eq: "result_of xs = (s, vs, cs) \<longleftrightarrow>
    s = butlast xs \<and> vs = sort (remdups (butlast xs)) \<and> cs = map (count_list (butlast xs)) vs"
  by (auto simp: result_of_def unique_counts_def Let_def)

lemma result_of_butlast: "butlast s1 = butlast s2 \<Longrightarrow> result_of s1 = result_of s2"
  by (simp add: result_of_def)

lemma nth_run: "i < m \<Longrightarrow> (ys @ replicate m x @ zs) ! (length ys + i) = x"
  by (simp add: nth_append)

text \<open>
  What leaves the loop with a value is a drawn candidate that passed the checks; the
  same holds on the path without restrictions, where both checks are off.
\<close>

lemma while_check_accepted:
  assumes "while_check pool n repeat balance maxit rng stp k = Some (Inr samples, t)"
  shows "\<exists>j. choice pool (n + 1) rng j = Inr samples
           \<and> check_samples pool n repeat balance samples = Inr False"
proof -
  from while_check_SomeD[OF assms] obtain j where
    "iteration pool n repeat balance maxit rng (stp + int j) (k + j) = Some (Inr samples, t)"
    by blast
  then show ?thesis
    by (auto simp: iteration_def split: sum.splits if_splits)
qed

lemma randrest_returned:
  assumes "randrest pool n repeat balance maxit rng = Some (Inr res, t)"
  shows "\<exists>samples j. choice pool (n + 1) rng j = Inr samples
           \<and> check_samples pool n repeat balance samples = Inr False
           \<and> res = result_of samples"
proof (cases "\<not> is_set repeat \<and> \<not> is_set balance")
  case True
  then show ?thesis using assms
    by (auto simp: randrest_def check_samples_def split: sum.splits)
next
  case False
  then obtain samples where "while_check pool n repeat balance maxit rng 1 0 = Some (Inr samples, t)"
    and "res = result_of samples"
    using assms by (auto simp: randrest_def split: option.splits sum.splits)
  with while_check_accepted[of pool n repeat balance maxit rng 1 0 samples t] show ?thesis by blast
qed

text \<open>
  An accepted candidate: no window of \<open>repeat + 1\<close> equal elements among the first \<open>n\<close>,
  and every value that occurs among them has its count inside the band.
\<close>

lemma accepted_no_run:
  assumes chk: "check_samples pool n (Some r) balance xs = Inr False" and r: "1 \<le> r"
  shows "\<not> (\<exists>ys x zs. butlast xs = ys @ replicate (nat r + 1) x @ zs)"
proof
  assume "\<exists>ys x zs. butlast xs = ys @ replicate (nat r + 1) x @ zs"
  then obtain ys x zs where run: "butlast xs = ys @ replicate (nat r + 1) x @ zs" by blast
  have "length (butlast xs) = length ys + (nat r + 1) + length zs"
    unfolding run by simp
  then have len: "length ys + nat r < length xs - 1" by simp
  have "xs ! (length ys + i) = xs ! (length ys + i + 1)" if "i < nat r" for i
  proof -
    have "length ys + i + 1 < length (butlast xs)" using that run by simp
    then have "xs ! (length ys + i) = butlast xs ! (length ys + i)"
      and "xs ! (length ys + i + 1) = butlast xs ! (length ys + i + 1)"
      by (simp_all add: nth_butlast)
    moreover have "butlast xs ! (length ys + i) = x"
      unfolding run by (rule nth_run) (use that in simp)
    moreover have "butlast xs ! (length ys + (i + 1)) = x"
      unfolding run by (rule nth_run) (use that in simp)
    then have "butlast xs ! (length ys + i + 1) = x"
      by (simp only: add.assoc)
    ultimately show ?thesis by simp
  qed
  then have "np_any (repcheck xs r)"
    using len repcheck_any[OF r, of xs] by blast
  with check_samples_repeat[OF chk r] show False by simp
qed

lemma accepted_in_band:
  assumes "check_samples pool n repeat (Some b) xs = Inr False" "b \<noteq> 0" "v \<in> set (butlast xs)"
  shows "\<not> to_double (of_nat (count_list (butlast xs) v))
            < to_double (to_double (of_int n / of_nat (length pool)) - to_double b)
       \<and> \<not> to_double (to_double (of_int n / of_nat (length pool)) + to_double b)
            < to_double (of_nat (count_list (butlast xs) v))"
proof -
  have "\<not> balcheck pool n xs b"
    using assms(1,2) by (auto simp: check_samples_def is_set_def Let_def split: if_splits)
  then show ?thesis using assms(3) unfolding balcheck_iff by blast
qed

text \<open>
  A candidate of at most one element (that is, \<open>n \<le> 0\<close>) passes both checks.
\<close>

lemma check_samples_short:
  assumes "length xs \<le> 1" "pool \<noteq> []" "\<forall>r. repeat = Some r \<longrightarrow> 0 \<le> r"
  shows "check_samples pool n repeat balance xs = Inr False"
proof -
  have bal: "\<not> balcheck pool n xs b" for b
    using assms(1) by (cases xs) (auto simp: balcheck_iff)
  have rep: "\<not> np_any (repcheck xs r)" if "1 \<le> r" for r
    using repcheck_any[OF that, of xs] assms(1) by simp
  have "\<not> np_any (repcheck xs (the repeat))" if "is_set repeat"
  proof -
    from that obtain r where "repeat = Some r" "r \<noteq> 0" by (auto simp: is_set_def split: option.splits)
    with assms(3) have "1 \<le> r" by force
    with rep \<open>repeat = Some r\<close> show ?thesis by simp
  qed
  then show ?thesis using bal assms(2) by (auto simp: check_samples_def Let_def)
qed

section \<open>The loop under a positive budget\<close>

lemma iteration_NoneD:
  assumes "iteration pool n repeat balance maxit rng stp k = None"
  shows "\<exists>xs. choice pool (n + 1) rng k = Inr xs
           \<and> check_samples pool n repeat balance xs = Inr True \<and> stp \<noteq> maxit"
  using assms by (auto simp: iteration_def split: sum.splits if_splits)

lemma iteration_at_budget:
  "iteration pool n repeat balance maxit rng maxit k \<noteq> None"
  by (auto simp: iteration_def split: sum.splits)

lemma iteration_draws:
  assumes "iteration pool n repeat balance maxit rng stp k = Some (res, t)"
  shows "draws t \<le> k + 1"
  using assms by (auto simp: iteration_def split: sum.splits if_splits)

lemma iteration_StopIterationD:
  assumes "iteration pool n repeat balance maxit rng stp k = Some (Inl (StopIteration m), t)"
  shows "stp = maxit"
  using assms choice_error[of pool "n + 1" rng k]
  by (auto simp: iteration_def check_samples_def Let_def split: sum.splits if_splits)

text \<open>
  With \<open>maxit \<ge> 1\<close> the pass with \<open>stop = maxit\<close> leaves the loop whatever the check says,
  so that the loop ends in one of the first \<open>maxit\<close> passes.
\<close>

lemma while_check_within_budget:
  assumes "1 \<le> maxit"
  shows "\<exists>j r. j < nat maxit
           \<and> while_check pool n repeat balance maxit rng 1 0 = Some r
           \<and> iteration pool n repeat balance maxit rng (1 + int j) j = Some r
           \<and> (\<forall>i<j. iteration pool n repeat balance maxit rng (1 + int i) i = None)"
proof -
  let ?f = "\<lambda>j. iteration pool n repeat balance maxit rng (1 + int j) j"
  define j where "j = (LEAST j. ?f j \<noteq> None)"
  have last: "?f (nat maxit - 1) \<noteq> None"
    using iteration_at_budget[of pool n repeat balance maxit rng "nat maxit - 1"] assms
    by (simp add: of_nat_diff)
  then have "?f j \<noteq> None" unfolding j_def by (rule LeastI)
  then obtain r where r: "?f j = Some r" by auto
  have "j \<le> nat maxit - 1" unfolding j_def using last by (rule Least_le)
  then have bound: "j < nat maxit" using assms by linarith
  have before: "\<forall>i<j. ?f i = None"
    unfolding j_def using not_less_Least by blast
  have "while_check pool n repeat balance maxit rng 1 0 = Some r"
    using while_check_leaves[of pool n repeat balance maxit rng 1 j 0 r] r before by simp
  with bound r before show ?thesis by blast
qed

section \<open>A pool of one element under the repeat restriction\<close>

lemma check_samples_single_pool:
  assumes xs: "choice pool (n + 1) rng k = Inr xs"
    and "length pool = 1" "1 \<le> r" "r < n"
  shows "check_samples pool n (Some r) balance xs = Inr True"
proof -
  have len: "int (length xs) = n + 1" using choice_length[OF xs] .
  have same: "xs ! i = pool ! 0" if "i < length xs" for i
    using xs that assms(2) by (auto simp: choice_def split: if_splits)
  have "0 + nat r < length xs - 1" using len assms(3,4) by linarith
  moreover have "\<forall>i<nat r. xs ! (0 + i) = xs ! (0 + i + 1)"
  proof (intro allI impI)
    fix i assume "i < nat r"
    then have "i < length xs" "i + 1 < length xs" using len assms(4) by linarith+
    then show "xs ! (0 + i) = xs ! (0 + i + 1)" using same by simp
  qed
  ultimately have "np_any (repcheck xs r)"
    using repcheck_any[OF assms(3), of xs] by blast
  moreover have "pool \<noteq> []" using assms(2) by auto
  ultimately show ?thesis using assms(3) by (auto simp: check_samples_def is_set_def Let_def)
qed

section \<open>The last drawn element\<close>

text \<open>
  Both checks and the returned value read \<open>samples\<close> only through \<open>samples[:-1]\<close> and
  through its length.
\<close>

lemma repcheck_any_butlast:
  assumes "butlast s1 = butlast s2" "length s1 = length s2"
  shows "np_any (repcheck s1 r) = np_any (repcheck s2 r)"
proof (cases "1 \<le> r")
  case False
  then have "[1..r] = []" by simp
  then show ?thesis by (simp add: repcheck_def)
next
  case True
  have nth: "s1 ! x = s2 ! x" if "x < length s1 - 1" for x
  proof -
    have "s1 ! x = butlast s1 ! x" using that by (simp add: nth_butlast)
    also have "\<dots> = butlast s2 ! x" using assms(1) by simp
    also have "\<dots> = s2 ! x" using that assms(2) by (simp add: nth_butlast)
    finally show ?thesis .
  qed
  have "(\<forall>i<nat r. s1 ! (j + i) = s1 ! (j + i + 1)) = (\<forall>i<nat r. s2 ! (j + i) = s2 ! (j + i + 1))"
    if "j + nat r < length s1 - 1" for j
  proof -
    have "s1 ! (j + i) = s2 ! (j + i)" "s1 ! (j + i + 1) = s2 ! (j + i + 1)" if "i < nat r" for i
      using that \<open>j + nat r < length s1 - 1\<close> by (auto intro!: nth)
    then show ?thesis by auto
  qed
  then show ?thesis
    unfolding repcheck_any[OF True] using assms(2) by auto
qed

lemma check_samples_butlast:
  assumes "butlast s1 = butlast s2" "length s1 = length s2"
  shows "check_samples pool n repeat balance s1 = check_samples pool n repeat balance s2"
proof -
  have "balcheck pool n s1 b = balcheck pool n s2 b" for b
    unfolding balcheck_iff assms(1) ..
  moreover have "np_any (repcheck s1 r) = np_any (repcheck s2 r)" for r
    using repcheck_any_butlast[OF assms] .
  ultimately show ?thesis by (simp add: check_samples_def Let_def)
qed

lemma iteration_butlast:
  assumes same: "\<forall>k. map_sum id butlast (choice pool (n + 1) rng1 k)
                   = map_sum id butlast (choice pool (n + 1) rng2 k)"
  shows "map_option (apfst (map_sum id butlast)) (iteration pool n repeat balance maxit rng1 stp k)
       = map_option (apfst (map_sum id butlast)) (iteration pool n repeat balance maxit rng2 stp k)"
proof (cases "choice pool (n + 1) rng1 k")
  case (Inl e)
  then have "choice pool (n + 1) rng2 k = Inl e" using choice_same_error by metis
  with Inl show ?thesis by (simp add: iteration_def)
next
  case (Inr s1)
  then obtain s2 where s2: "choice pool (n + 1) rng2 k = Inr s2"
    using choice_same_error[of pool "n + 1" rng1 k _ rng2] by (cases "choice pool (n + 1) rng2 k") auto
  have bl: "butlast s1 = butlast s2" using same[rule_format, of k] Inr s2 by simp
  have "length s1 = length s2" using choice_length[OF Inr] choice_length[OF s2] by simp
  from check_samples_butlast[OF bl this]
  have "check_samples pool n repeat balance s1 = check_samples pool n repeat balance s2" .
  then show ?thesis using Inr s2 bl
    by (cases "check_samples pool n repeat balance s2") (simp_all add: iteration_def)
qed

lemma while_check_butlast_Some:
  assumes same: "\<forall>k. map_sum id butlast (choice pool (n + 1) rng1 k)
                   = map_sum id butlast (choice pool (n + 1) rng2 k)"
    and run: "while_check pool n repeat balance maxit rng1 stp k = Some r1"
  shows "\<exists>r2. while_check pool n repeat balance maxit rng2 stp k = Some r2
           \<and> apfst (map_sum id butlast) r1 = apfst (map_sum id butlast) r2"
proof -
  from while_check_SomeD[OF run] obtain j where
    j: "iteration pool n repeat balance maxit rng1 (stp + int j) (k + j) = Some r1"
    and before: "\<forall>i<j. iteration pool n repeat balance maxit rng1 (stp + int i) (k + i) = None"
    by blast
  from iteration_butlast[OF same, of repeat balance maxit "stp + int j" "k + j"] j
  obtain r2 where r2: "iteration pool n repeat balance maxit rng2 (stp + int j) (k + j) = Some r2"
    and rel: "apfst (map_sum id butlast) r1 = apfst (map_sum id butlast) r2"
    by (cases "iteration pool n repeat balance maxit rng2 (stp + int j) (k + j)") auto
  have "\<forall>i<j. iteration pool n repeat balance maxit rng2 (stp + int i) (k + i) = None"
  proof (intro allI impI)
    fix i assume "i < j"
    with before have "iteration pool n repeat balance maxit rng1 (stp + int i) (k + i) = None" by blast
    with iteration_butlast[OF same, of repeat balance maxit "stp + int i" "k + i"]
    show "iteration pool n repeat balance maxit rng2 (stp + int i) (k + i) = None" by simp
  qed
  from while_check_leaves[OF r2 this] rel show ?thesis by blast
qed

lemma while_check_butlast:
  assumes same: "\<forall>k. map_sum id butlast (choice pool (n + 1) rng1 k)
                   = map_sum id butlast (choice pool (n + 1) rng2 k)"
  shows "map_option (apfst (map_sum id butlast)) (while_check pool n repeat balance maxit rng1 stp k)
       = map_option (apfst (map_sum id butlast)) (while_check pool n repeat balance maxit rng2 stp k)"
proof -
  have same': "\<forall>k. map_sum id butlast (choice pool (n + 1) rng2 k)
                   = map_sum id butlast (choice pool (n + 1) rng1 k)"
    using same by simp
  show ?thesis
  proof (cases "while_check pool n repeat balance maxit rng1 stp k")
    case None
    have "while_check pool n repeat balance maxit rng2 stp k = None"
    proof (rule ccontr)
      assume "while_check pool n repeat balance maxit rng2 stp k \<noteq> None"
      then obtain r2 where "while_check pool n repeat balance maxit rng2 stp k = Some r2" by auto
      from while_check_butlast_Some[OF same' this] None show False by simp
    qed
    with None show ?thesis by simp
  next
    case (Some r1)
    from while_check_butlast_Some[OF same Some] Some show ?thesis by auto
  qed
qed

lemma randrest_loop_strip:
  "(case w of None \<Rightarrow> None
    | Some (Inl e, t) \<Rightarrow> Some (Inl e, t)
    | Some (Inr samples, t) \<Rightarrow> Some (Inr (result_of samples), t))
   = (case map_option (apfst (map_sum id butlast)) w of None \<Rightarrow> None
    | Some (Inl e, t) \<Rightarrow> Some (Inl e, t)
    | Some (Inr s, t) \<Rightarrow>
        Some (Inr (s, sort (remdups s), map (count_list s) (sort (remdups s))), t))"
  by (auto simp: result_of_def unique_counts_def Let_def split: option.splits sum.splits)

section \<open>The example of the notebook\<close>

text \<open>
  The band of \<open>randrest([1, 2, 3], 40, 2, 1)\<close> in doubles, \<open>40/3 - 1\<close> and \<open>40/3 + 1\<close>, lies
  between 12 and 13 and between 14 and 15.
\<close>

lemma band_40_3:
  "to_double (to_double (of_int 40 / of_nat (length [1, 2, 3 :: int])) - to_double 1)
     = 6943049425529515 / 562949953421312
   \<and> to_double (to_double (of_int 40 / of_nat (length [1, 2, 3 :: int])) + to_double 1)
     = 8068949332372139 / 562949953421312"
  by code_simp

lemma counts_to_double:
  "list_all (\<lambda>c. to_double (of_nat c) = of_nat c) [0..<41]"
  by code_simp

lemma count_13_14:
  fixes c :: nat
  assumes "c \<le> 40"
    and "\<not> to_double (of_nat c)
            < to_double (to_double (of_int 40 / of_nat (length [1, 2, 3 :: int])) - to_double 1)"
    and "\<not> to_double (to_double (of_int 40 / of_nat (length [1, 2, 3 :: int])) + to_double 1)
            < to_double (of_nat c)"
  shows "c = 13 \<or> c = 14"
proof -
  have "c \<in> set [0..<41]" using assms(1) by simp
  with counts_to_double have exact: "to_double (of_nat c) = of_nat c"
    unfolding list_all_iff by blast
  have lo: "\<not> (of_nat c :: rat) < 6943049425529515 / 562949953421312"
    using assms(2) unfolding exact using band_40_3 by simp
  have hi: "\<not> (8068949332372139 / 562949953421312 :: rat) < of_nat c"
    using assms(3) unfolding exact using band_40_3 by simp
  have "(of_nat 12 :: rat) < of_nat c" using lo by simp
  then have "12 < c" by (simp only: of_nat_less_iff)
  moreover have "(of_nat c :: rat) < of_nat 15" using hi by simp
  then have "c < 15" by (simp only: of_nat_less_iff)
  ultimately show ?thesis by linarith
qed

lemma length_three_values:
  assumes "set s \<subseteq> {1, 2, 3 :: int}"
  shows "length s = count_list s 1 + count_list s 2 + count_list s 3"
  using assms by (induction s) auto

section \<open>Length and repeat restriction of the returned sequence\<close>

text \<open>
  C6: whenever the call returns for an \<open>n \<ge> 0\<close>, the returned sequence has exactly \<open>n\<close>
  elements (the \<open>n + 1\<close> drawn ones without the last), with or without restrictions.
\<close>

theorem returned_length:
  assumes "randrest pool n repeat balance maxit rng = Some (Inr (samples, values, counts), t)"
    and "0 \<le> n"
  shows "int (length samples) = n"
proof -
  from randrest_returned[OF assms(1)] obtain xs j where
    xs: "choice pool (n + 1) rng j = Inr xs" and res: "(samples, values, counts) = result_of xs"
    by blast
  from choice_length[OF xs] have "int (length xs) = n + 1" .
  moreover from res have "samples = butlast xs" by (metis result_of_eq)
  ultimately show ?thesis using assms(2) by simp
qed

theorem returned_length_witness:
  "randrest [1, 2, 3 :: int] 6 None (Some 1) 5 rng_triples
     = Some (Inr ([1, 1, 1, 2, 2, 2], [1, 2], [3, 3]), \<lparr>draws = 1, stop = Some 2\<rparr>)
   \<and> (0::int) \<le> 6 \<and> int (length [1, 1, 1, 2, 2, 2 :: int]) = 6"
proof -
  have run: "randrest [1, 2, 3 :: int] 6 None (Some 1) 5 rng_triples
     = Some (Inr ([1, 1, 1, 2, 2, 2], [1, 2], [3, 3]), \<lparr>draws = 1, stop = Some 2\<rparr>)"
    by code_simp
  have n: "(0::int) \<le> 6" by simp
  from returned_length[OF run n] run n show ?thesis by simp
qed

text \<open>
  C3: with \<open>repeat = r\<close> for a positive integer \<open>r\<close>, a returned sequence contains no run
  of \<open>r + 1\<close> identical consecutive elements, wherever the run lies in the sequence: it can
  not be written as \<open>ys @ replicate (r + 1) x @ zs\<close>, also not with an empty \<open>ys\<close> (a run
  at the first element) or an empty \<open>zs\<close> (a run at the last). A longer run contains one
  of \<open>r + 1\<close> elements.
\<close>

theorem no_long_run:
  assumes "randrest pool n (Some r) balance maxit rng = Some (Inr (samples, values, counts), t)"
    and "1 \<le> r"
  shows "\<not> (\<exists>ys x zs. samples = ys @ replicate (nat r + 1) x @ zs)"
proof -
  from randrest_returned[OF assms(1)] obtain xs j where
    chk: "check_samples pool n (Some r) balance xs = Inr False"
    and res: "(samples, values, counts) = result_of xs"
    by blast
  from res have "samples = butlast xs" by (metis result_of_eq)
  with accepted_no_run[OF chk assms(2)] show ?thesis by simp
qed

theorem no_long_run_witness:
  "randrest [1, 2, 3 :: int] 6 (Some 3) None 5 rng_triples
     = Some (Inr ([1, 1, 1, 2, 2, 2], [1, 2], [3, 3]), \<lparr>draws = 1, stop = Some 2\<rparr>)
   \<and> (1::int) \<le> 3
   \<and> \<not> (\<exists>ys x zs. [1, 1, 1, 2, 2, 2 :: int] = ys @ replicate (nat 3 + 1) x @ zs)"
proof -
  have run: "randrest [1, 2, 3 :: int] 6 (Some 3) None 5 rng_triples
     = Some (Inr ([1, 1, 1, 2, 2, 2], [1, 2], [3, 3]), \<lparr>draws = 1, stop = Some 2\<rparr>)"
    by code_simp
  have r: "(1::int) \<le> 3" by simp
  from no_long_run[OF run r] run r show ?thesis by blast
qed

section \<open>The balance restriction\<close>

text \<open>
  C1 asks that every value of the pool, also one that does not occur in the candidate,
  has its count inside \<open>[n/|pool| - balance, n/|pool| + balance]\<close>. The check reads the
  counts from \<open>np.unique\<close> of the candidate, which lists the values that occur. Here the
  pool is \<open>[1, 2, 3]\<close>, \<open>n = 6\<close> and \<open>balance = 1\<close>, so that the band is \<open>[1, 3]\<close>; the
  candidate \<open>1, 1, 1, 2, 2, 2\<close> is returned, although the value 3 occurs 0 times and
  the lower bound 1 is positive.
\<close>

theorem absent_value_accepted:
  "randrest [1, 2, 3 :: int] 6 None (Some 1) 5 rng_triples
     = Some (Inr ([1, 1, 1, 2, 2, 2], [1, 2], [3, 3]), \<lparr>draws = 1, stop = Some 2\<rparr>)
   \<and> count_list [1, 1, 1, 2, 2, 2] (3 :: int) = 0
   \<and> \<not> ((6 :: rat) / 3 - 1 \<le> 0)"
  by code_simp

text \<open>
  Rounding decides at the edge of the band. For the pool \<open>[1, 2, 3]\<close>, \<open>n = 2\<close> and the
  double \<open>balance = 0.3333333333333333\<close> (that is \<open>6004799503160661 / 2^54\<close>, below \<open>1/3\<close>)
  the upper bound \<open>2/3 + balance\<close> is rounded to 1, and the counts 1 and 1 are accepted.
\<close>

lemma upper_bound_rounded_to_one:
  "to_double (to_double (of_int 2 / of_nat (length [1, 2, 3 :: int]))
              + to_double (6004799503160661 / 2 ^ 54)) = 1
   \<and> randrest [1, 2, 3 :: int] 2 None (Some (6004799503160661 / 2 ^ 54)) 5 rng_cycle
       = Some (Inr ([1, 2], [1, 2], [1, 1]), \<lparr>draws = 1, stop = Some 2\<rparr>)"
  by code_simp

text \<open>
  C8: every call \<open>randrest([1, 2, 3], 40, 2, 1)\<close> that returns, returns 40 elements
  of \<open>{1, 2, 3}\<close> without three equal elements in a row, and each of the values 1, 2
  and 3 occurs 13 or 14 times. A value that does not occur is not checked, but here
  it cannot be missing: two values with at most 14 occurrences each do not make up
  40 elements.
\<close>

theorem example_scenario:
  assumes "randrest [1, 2, 3 :: int] 40 (Some 2) (Some 1) maxit rng
           = Some (Inr (samples, values, counts), t)"
  shows "length samples = 40 \<and> set samples \<subseteq> {1, 2, 3}
       \<and> \<not> (\<exists>ys x zs. samples = ys @ replicate 3 x @ zs)
       \<and> (count_list samples 1 = 13 \<or> count_list samples 1 = 14)
       \<and> (count_list samples 2 = 13 \<or> count_list samples 2 = 14)
       \<and> (count_list samples 3 = 13 \<or> count_list samples 3 = 14)"
proof -
  from randrest_returned[OF assms] obtain xs j where
    xs: "choice [1, 2, 3 :: int] (40 + 1) rng j = Inr xs"
    and chk: "check_samples [1, 2, 3 :: int] 40 (Some 2) (Some 1) xs = Inr False"
    and res: "(samples, values, counts) = result_of xs"
    by blast
  from res have s: "samples = butlast xs" by (metis result_of_eq)
  have len: "length samples = 40"
    using choice_length[OF xs] unfolding s by simp
  have sub: "set samples \<subseteq> {1, 2, 3}"
    using choice_subset[OF xs] unfolding s by (auto dest: in_set_butlastD)
  have norun: "\<not> (\<exists>ys x zs. samples = ys @ replicate 3 x @ zs)"
    using accepted_no_run[OF chk] unfolding s by simp
  have band: "count_list samples v = 13 \<or> count_list samples v = 14" if "v \<in> set samples" for v
  proof (rule count_13_14)
    show "count_list samples v \<le> 40"
      using count_le_length[of samples v] len by simp
  qed (use accepted_in_band[OF chk _ that[unfolded s]] in \<open>simp_all add: s\<close>)
  have cases: "count_list samples v = 0 \<or> count_list samples v = 13 \<or> count_list samples v = 14" for v
    using band[of v] count_list_0_iff[of samples v] by blast
  have total: "count_list samples 1 + count_list samples 2 + count_list samples 3 = 40"
    using length_three_values[OF sub] len by simp
  have present: "count_list samples 1 \<noteq> 0" "count_list samples 2 \<noteq> 0" "count_list samples 3 \<noteq> 0"
    using total cases[of 1] cases[of 2] cases[of 3] by presburger+
  have c1: "count_list samples 1 = 13 \<or> count_list samples 1 = 14"
    using cases[of 1] present(1) by simp
  have c2: "count_list samples 2 = 13 \<or> count_list samples 2 = 14"
    using cases[of 2] present(2) by simp
  have c3: "count_list samples 3 = 13 \<or> count_list samples 3 = 14"
    using cases[of 3] present(3) by simp
  from len sub norun c1 c2 c3 show ?thesis by (intro conjI)
qed

theorem example_scenario_witness:
  "randrest [1, 2, 3 :: int] 40 (Some 2) (Some 1) 5 rng_cycle
     = Some (Inr ([1, 2, 3, 1, 2, 3, 1, 2, 3, 1, 2, 3, 1, 2, 3, 1, 2, 3, 1, 2,
                   3, 1, 2, 3, 1, 2, 3, 1, 2, 3, 1, 2, 3, 1, 2, 3, 1, 2, 3, 1],
                  [1, 2, 3], [14, 13, 13]), \<lparr>draws = 1, stop = Some 2\<rparr>)
   \<and> count_list [1, 2, 3, 1, 2, 3, 1, 2, 3, 1, 2, 3, 1, 2, 3, 1, 2, 3, 1, 2,
                  3, 1, 2, 3, 1, 2, 3, 1, 2, 3, 1, 2, 3, 1, 2, 3, 1, 2, 3, 1] (1 :: int) = 14"
proof -
  have run: "randrest [1, 2, 3 :: int] 40 (Some 2) (Some 1) 5 rng_cycle
     = Some (Inr ([1, 2, 3, 1, 2, 3, 1, 2, 3, 1, 2, 3, 1, 2, 3, 1, 2, 3, 1, 2,
                   3, 1, 2, 3, 1, 2, 3, 1, 2, 3, 1, 2, 3, 1, 2, 3, 1, 2, 3, 1],
                  [1, 2, 3], [14, 13, 13]), \<lparr>draws = 1, stop = Some 2\<rparr>)"
    by code_simp
  have "count_list [1, 2, 3, 1, 2, 3, 1, 2, 3, 1, 2, 3, 1, 2, 3, 1, 2, 3, 1, 2,
                  3, 1, 2, 3, 1, 2, 3, 1, 2, 3, 1, 2, 3, 1, 2, 3, 1, 2, 3, 1] (1 :: int) \<noteq> 13"
    by code_simp
  with example_scenario[OF run] run show ?thesis by blast
qed

section \<open>Calls that return the first draw\<close>

text \<open>
  C7: when neither restriction is set (\<open>False\<close>, which 0 equals), the call returns the
  first draw for every non-empty pool and every \<open>n \<ge> 0\<close>. The loop is not entered: the
  counter \<open>stop\<close> is never assigned. The budget is not consulted: the result is the same
  for every \<open>maxit\<close>, also for one below 1.
\<close>

theorem no_restriction_first_draw:
  assumes "\<not> is_set repeat" "\<not> is_set balance" "pool \<noteq> []" "0 \<le> n"
  shows "\<exists>samples. choice pool (n + 1) rng 0 = Inr samples
           \<and> (\<forall>maxit. randrest pool n repeat balance maxit rng
                  = Some (Inr (result_of samples), \<lparr>draws = 1, stop = None\<rparr>))"
proof -
  from choice_Inr[of pool "n + 1" rng 0] assms(3,4)
  obtain samples where "choice pool (n + 1) rng 0 = Inr samples" by auto
  then show ?thesis using assms(1,2) by (simp add: randrest_def)
qed

theorem no_restriction_first_draw_witness:
  "\<not> is_set (None :: int option) \<and> \<not> is_set (None :: rat option)
   \<and> [1, 2, 3 :: int] \<noteq> [] \<and> (0::int) \<le> 4
   \<and> randrest [1, 2, 3 :: int] 4 None None 0 rng_cycle
       = Some (Inr ([1, 2, 3, 1], [1, 2, 3], [2, 1, 1]), \<lparr>draws = 1, stop = None\<rparr>)"
proof -
  have a: "\<not> is_set (None :: int option)" and b: "\<not> is_set (None :: rat option)"
    by (simp_all add: is_set_def)
  have c: "[1, 2, 3 :: int] \<noteq> []" and d: "(0::int) \<le> 4" by simp_all
  have e: "choice [1, 2, 3 :: int] (4 + 1) rng_cycle 0 = Inr [1, 2, 3, 1, 2]" by code_simp
  have f: "result_of [1, 2, 3, 1, 2 :: int] = ([1, 2, 3, 1], [1, 2, 3], [2, 1, 1])" by code_simp
  from no_restriction_first_draw[OF a b c d, of rng_cycle] a b c d e f show ?thesis by simp
qed

text \<open>
  C9, as amended: for \<open>n = 0\<close>, a non-empty pool, any budget, any \<open>balance\<close> and \<open>repeat\<close>
  unset or not negative, the call returns the empty sequence with an empty histogram
  after exactly one draw, with no retry and no error. With a restriction set, that
  draw is the first pass of the loop, which ends with \<open>stop = 2\<close>; the loop is not
  entered only when no restriction is set.
\<close>

theorem empty_sequence_first_draw:
  assumes "pool \<noteq> []" "case repeat of None \<Rightarrow> True | Some r \<Rightarrow> 0 \<le> r"
  shows "randrest pool 0 repeat balance maxit rng
         = Some (Inr ([], [], []),
                 \<lparr>draws = 1, stop = (if is_set repeat \<or> is_set balance then Some 2 else None)\<rparr>)"
proof -
  have nonneg: "\<forall>r. repeat = Some r \<longrightarrow> 0 \<le> r" using assms(2) by auto
  from choice_Inr[of pool "0 + 1" rng 0] assms(1)
  obtain xs where xs: "choice pool (0 + 1) rng 0 = Inr xs" by auto
  from choice_length[OF xs] have len: "length xs = 1" by simp
  then have res: "result_of xs = ([], [], [])"
    by (cases xs) (auto simp: result_of_def unique_counts_def)
  show ?thesis
  proof (cases "is_set repeat \<or> is_set balance")
    case False
    then show ?thesis using xs res by (simp add: randrest_def)
  next
    case True
    have "check_samples pool 0 repeat balance xs = Inr False"
      using check_samples_short[OF _ assms(1) nonneg, of xs] len by simp
    then have "while_check pool 0 repeat balance maxit rng 1 0
               = Some (Inr xs, \<lparr>draws = 1, stop = Some 2\<rparr>)"
      using xs by (subst while_check.simps) simp
    then show ?thesis using True res by (auto simp: randrest_def)
  qed
qed

theorem empty_sequence_first_draw_witness:
  "[1, 2, 3 :: int] \<noteq> [] \<and> (case Some (2::int) of None \<Rightarrow> True | Some r \<Rightarrow> 0 \<le> r)
   \<and> randrest [1, 2, 3 :: int] 0 (Some 2) (Some 1) 1 rng_cycle
       = Some (Inr ([], [], []), \<lparr>draws = 1, stop = Some 2\<rparr>)"
proof -
  have a: "[1, 2, 3 :: int] \<noteq> []"
    and b: "case Some (2::int) of None \<Rightarrow> True | Some r \<Rightarrow> 0 \<le> r" by simp_all
  from empty_sequence_first_draw[OF a b, of "Some 1" 1 rng_cycle] a b show ?thesis
    by (simp add: is_set_def)
qed

text \<open>
  C9 as stated fails: with \<open>repeat = 2\<close> and \<open>balance = 1\<close> the call for \<open>n = 0\<close> goes
  through the loop once (\<open>stop\<close> has been assigned and incremented to 2).
\<close>

theorem loop_entered_for_empty_sequence:
  "randrest [1, 2, 3 :: int] 0 (Some 2) (Some 1) 5 rng_cycle
     = Some (Inr ([], [], []), \<lparr>draws = 1, stop = Some 2\<rparr>)"
  by code_simp

section \<open>The iteration budget\<close>

text \<open>
  C5: for \<open>maxit \<ge> 1\<close> every call returns or raises, after at most \<open>maxit\<close> draws. For a
  non-empty pool and \<open>n \<ge> 0\<close> it either returns the candidate drawn last, which passed
  the checks, or it raises \<open>StopIteration\<close> after exactly \<open>maxit\<close> draws, every one of which
  failed the checks.
\<close>

theorem budget_bounds_draws:
  assumes "1 \<le> maxit"
  shows "\<exists>res t. randrest pool n repeat balance maxit rng = Some (res, t)
     \<and> int (draws t) \<le> maxit
     \<and> (pool \<noteq> [] \<and> 0 \<le> n \<longrightarrow>
          (\<exists>samples. 1 \<le> draws t \<and> choice pool (n + 1) rng (draws t - 1) = Inr samples
               \<and> check_samples pool n repeat balance samples = Inr False
               \<and> res = Inr (result_of samples))
        \<or> (res = Inl (StopIteration maxit) \<and> int (draws t) = maxit
             \<and> (\<forall>k<nat maxit. \<exists>samples. choice pool (n + 1) rng k = Inr samples
                    \<and> check_samples pool n repeat balance samples = Inr True)))"
proof (cases "\<not> is_set repeat \<and> \<not> is_set balance")
  case True
  show ?thesis
  proof (cases "choice pool (n + 1) rng 0")
    case (Inl e)
    then have "randrest pool n repeat balance maxit rng = Some (Inl e, \<lparr>draws = 0, stop = None\<rparr>)"
      using True by (simp add: randrest_def)
    moreover have "\<not> (pool \<noteq> [] \<and> 0 \<le> n)"
      using choice_error[OF Inl] by auto
    ultimately show ?thesis using assms by auto
  next
    case (Inr xs)
    then have "randrest pool n repeat balance maxit rng
               = Some (Inr (result_of xs), \<lparr>draws = 1, stop = None\<rparr>)"
      using True by (simp add: randrest_def)
    moreover have "check_samples pool n repeat balance xs = Inr False"
      using True by (simp add: check_samples_def)
    ultimately show ?thesis using assms Inr by auto
  qed
next
  case False
  from while_check_within_budget[OF assms, of pool n repeat balance rng]
  obtain j r where j: "j < nat maxit"
    and w: "while_check pool n repeat balance maxit rng 1 0 = Some r"
    and it: "iteration pool n repeat balance maxit rng (1 + int j) j = Some r"
    and before: "\<forall>i<j. iteration pool n repeat balance maxit rng (1 + int i) i = None"
    by blast
  obtain res0 t where r: "r = (res0, t)" by (cases r)
  define res where "res = map_sum id result_of res0"
  have run: "randrest pool n repeat balance maxit rng = Some (res, t)"
    using False w r by (cases res0) (auto simp: randrest_def res_def)
  have dr: "int (draws t) \<le> maxit"
    using iteration_draws[OF it[unfolded r]] j by linarith
  have rest: "(\<exists>samples. 1 \<le> draws t \<and> choice pool (n + 1) rng (draws t - 1) = Inr samples
               \<and> check_samples pool n repeat balance samples = Inr False
               \<and> res = Inr (result_of samples))
        \<or> (res = Inl (StopIteration maxit) \<and> int (draws t) = maxit
             \<and> (\<forall>k<nat maxit. \<exists>samples. choice pool (n + 1) rng k = Inr samples
                    \<and> check_samples pool n repeat balance samples = Inr True))"
    if valid: "pool \<noteq> []" "0 \<le> n"
  proof -
    from choice_Inr[of pool "n + 1" rng j] valid
    obtain xs where xs: "choice pool (n + 1) rng j = Inr xs" by auto
    from check_samples_Inr[OF valid(1), of n repeat balance xs]
    obtain b where b: "check_samples pool n repeat balance xs = Inr b" by blast
    show ?thesis
    proof (cases b)
      case False
      then have "r = (Inr xs, \<lparr>draws = j + 1, stop = Some (1 + int j + 1)\<rparr>)"
        using it xs b by (simp add: iteration_def)
      then have "res = Inr (result_of xs)" "draws t = j + 1"
        using r by (auto simp: res_def)
      then show ?thesis using xs b False by auto
    next
      case True
      then have stop_here: "1 + int j = maxit"
        using it xs b by (auto simp: iteration_def split: if_splits)
      then have "r = (Inl (StopIteration maxit), \<lparr>draws = j + 1, stop = Some (1 + int j)\<rparr>)"
        using it xs b True by (simp add: iteration_def)
      then have res: "res = Inl (StopIteration maxit)" "draws t = j + 1"
        using r by (auto simp: res_def)
      have "\<exists>samples. choice pool (n + 1) rng k = Inr samples
                    \<and> check_samples pool n repeat balance samples = Inr True" if "k < nat maxit" for k
      proof (cases "k = j")
        case True
        then show ?thesis using xs b \<open>b\<close> by auto
      next
        case False
        then have "k < j" using that stop_here by linarith
        with before have "iteration pool n repeat balance maxit rng (1 + int k) k = None" by blast
        from iteration_NoneD[OF this] show ?thesis by blast
      qed
      then show ?thesis using res stop_here by auto
    qed
  qed
  show ?thesis using run dr rest by blast
qed

theorem budget_bounds_draws_witness:
  "(1::int) \<le> 2 \<and> [7 :: int] \<noteq> [] \<and> (0::int) \<le> 3
   \<and> randrest [7 :: int] 3 (Some 2) None 2 rng_first
       = Some (Inl (StopIteration 2), \<lparr>draws = 2, stop = Some 2\<rparr>)
   \<and> randrest [1, 2, 3 :: int] 3 (Some 2) None 2 rng_cycle
       = Some (Inr ([1, 2, 3], [1, 2, 3], [1, 1, 1]), \<lparr>draws = 1, stop = Some 2\<rparr>)"
proof -
  have m: "(1::int) \<le> 2" by simp
  have a: "randrest [7 :: int] 3 (Some 2) None 2 rng_first
       = Some (Inl (StopIteration 2), \<lparr>draws = 2, stop = Some 2\<rparr>)"
    by code_simp
  have b: "randrest [1, 2, 3 :: int] 3 (Some 2) None 2 rng_cycle
       = Some (Inr ([1, 2, 3], [1, 2, 3], [1, 1, 1]), \<lparr>draws = 1, stop = Some 2\<rparr>)"
    by code_simp
  from budget_bounds_draws[OF m, of "[7 :: int]" 3 "Some 2" None rng_first] m a b
  show ?thesis by simp
qed

text \<open>
  The bound on \<open>maxit\<close> is needed: with \<open>maxit = 0\<close> the counter never equals the budget,
  and a call whose candidates all fail does not return.
\<close>

lemma nonpositive_budget_may_not_return:
  "randrest [7 :: int] 3 (Some 2) None 0 rng_first = None"
proof -
  have up: "[0..<4] = [0, 1, 2, 3 :: nat]" by (simp add: upt_rec)
  have draw: "choice [7 :: int] (3 + 1) rng_first k = Inr [7, 7, 7, 7]" for k
    by (simp add: choice_def rng_first_def up)
  have chk: "check_samples [7 :: int] 3 (Some 2) None [7, 7, 7, 7] = Inr True"
    by code_simp
  have "iteration [7 :: int] 3 (Some 2) None 0 rng_first (1 + int j) (0 + j) = None" for j
    using draw chk by (simp add: iteration_def)
  then have "while_check [7 :: int] 3 (Some 2) None 0 rng_first 1 0 = None"
    by (intro while_check_None) simp
  then show ?thesis by (simp add: randrest_def is_set_def)
qed

text \<open>
  C2, as amended: for the repeat restriction \<open>repeat = r \<ge> 1\<close> with a pool of one element
  and \<open>n > r\<close>, which no candidate satisfies, and any budget \<open>maxit \<ge> 1\<close>, the call raises
  \<open>StopIteration\<close> after exactly \<open>maxit\<close> draws, whatever \<open>balance\<close> is; it neither goes on
  drawing nor returns a sequence.
\<close>

theorem infeasible_exhausts_budget:
  assumes "1 \<le> maxit" "1 \<le> r" "r < n" "length pool = 1"
  shows "randrest pool n (Some r) balance maxit rng
         = Some (Inl (StopIteration maxit), \<lparr>draws = nat maxit, stop = Some maxit\<rparr>)"
proof -
  have valid: "pool \<noteq> []" "0 \<le> n" using assms(2,3,4) by auto
  have active: "is_set (Some r)"
    using assms(2) by (simp add: is_set_def)
  from while_check_within_budget[OF assms(1), of pool n "Some r" balance rng]
  obtain j res where j: "j < nat maxit"
    and w: "while_check pool n (Some r) balance maxit rng 1 0 = Some res"
    and it: "iteration pool n (Some r) balance maxit rng (1 + int j) j = Some res"
    by blast
  from choice_Inr[of pool "n + 1" rng j] valid
  obtain xs where xs: "choice pool (n + 1) rng j = Inr xs" by auto
  have "check_samples pool n (Some r) balance xs = Inr True"
    using check_samples_single_pool[OF xs assms(4,2,3)] .
  with it xs have "1 + int j = maxit"
    and "res = (Inl (StopIteration maxit), \<lparr>draws = j + 1, stop = Some (1 + int j)\<rparr>)"
    by (auto simp: iteration_def split: if_splits)
  then have "res = (Inl (StopIteration maxit), \<lparr>draws = nat maxit, stop = Some maxit\<rparr>)"
    by auto
  with w active show ?thesis by (auto simp: randrest_def)
qed

theorem infeasible_exhausts_budget_witness:
  "(1::int) \<le> 5 \<and> (1::int) \<le> 1 \<and> (1::int) < 3 \<and> length [7::int] = 1
   \<and> randrest [7::int] 3 (Some 1) None 5 rng_first
       = Some (Inl (StopIteration 5), \<lparr>draws = nat 5, stop = Some 5\<rparr>)
   \<and> randrest [7::int] 3 (Some 1) (Some 1) 5 rng_first
       = Some (Inl (StopIteration 5), \<lparr>draws = nat 5, stop = Some 5\<rparr>)"
proof -
  have m: "(1::int) \<le> 5" and r: "(1::int) \<le> 1" and n: "(1::int) < 3"
    and p: "length [7::int] = 1" by simp_all
  from infeasible_exhausts_budget[OF m r n p, of None rng_first]
    infeasible_exhausts_budget[OF m r n p, of "Some 1" rng_first] m r n p
  show ?thesis by blast
qed

text \<open>
  C2 as stated fails: \<open>repeat = 0\<close> is false in \<open>if not repeat and not balance\<close>, so that
  no repeat restriction is in force, and the first draw is returned: three equal
  elements from a pool of one element, within a budget of 5.
\<close>

theorem zero_restriction_returns_first_draw:
  "randrest [7 :: int] 3 (Some 0) None 5 rng_first
     = Some (Inr ([7, 7, 7], [7], [3]), \<lparr>draws = 1, stop = None\<rparr>)"
  by code_simp

section \<open>Malformed arguments\<close>

text \<open>
  C4, as amended: when the first call of \<open>np.random.choice\<close> raises --- the library does
  so, with \<open>ValueError\<close>, for an empty pool with \<open>n \<ge> 0\<close> and for \<open>n < -1\<close> --- the call fails
  with the same error before any candidate is drawn (no draw is counted), and nothing
  is retried, whatever the budget and the restrictions are.
\<close>

theorem malformed_fails_at_first_draw:
  "(\<forall>e. choice pool (n + 1) rng 0 = Inl e \<longrightarrow>
      randrest pool n repeat balance maxit rng
      = Some (Inl e,
              \<lparr>draws = 0, stop = (if is_set repeat \<or> is_set balance then Some 1 else None)\<rparr>))
   \<and> (pool = [] \<and> 0 \<le> n \<or> n < - 1 \<longrightarrow>
      randrest pool n repeat balance maxit rng
      = Some (Inl ValueError,
              \<lparr>draws = 0, stop = (if is_set repeat \<or> is_set balance then Some 1 else None)\<rparr>))"
proof -
  have first: "randrest pool n repeat balance maxit rng
      = Some (Inl e,
              \<lparr>draws = 0, stop = (if is_set repeat \<or> is_set balance then Some 1 else None)\<rparr>)"
    if "choice pool (n + 1) rng 0 = Inl e" for e
    using that by (subst randrest_def, subst while_check.simps) auto
  have "choice pool (n + 1) rng 0 = Inl ValueError" if "pool = [] \<and> 0 \<le> n \<or> n < - 1"
    using that by (auto simp: choice_def)
  with first show ?thesis by blast
qed

theorem malformed_fails_at_first_draw_witness:
  "choice ([] :: int list) (4 + 1) rng_cycle 0 = Inl ValueError
   \<and> (([] :: int list) = [] \<and> (0::int) \<le> 4 \<or> (4::int) < - 1)
   \<and> randrest ([] :: int list) 4 (Some 2) None 10 rng_cycle
       = Some (Inl ValueError, \<lparr>draws = 0, stop = Some 1\<rparr>)
   \<and> ([1, 2 :: int] = [] \<and> (0::int) \<le> - 3 \<or> (- 3 ::int) < - 1)
   \<and> randrest [1, 2 :: int] (- 3) None None 10 rng_cycle
       = Some (Inl ValueError, \<lparr>draws = 0, stop = None\<rparr>)"
proof -
  have a: "([] :: int list) = [] \<and> (0::int) \<le> 4 \<or> (4::int) < - 1" by simp
  have b: "[1, 2 :: int] = [] \<and> (0::int) \<le> - 3 \<or> (- 3 ::int) < - 1" by simp
  have c: "choice ([] :: int list) (4 + 1) rng_cycle 0 = Inl ValueError"
    by (simp add: choice_def)
  from malformed_fails_at_first_draw[of "[] :: int list" 4 rng_cycle "Some 2" None 10]
    malformed_fails_at_first_draw[of "[1, 2 :: int]" "- 3" rng_cycle None None 10]
    a b c
  show ?thesis by (simp add: is_set_def)
qed

text \<open>
  C4 as stated fails: a call with \<open>maxit = 0\<close> returns a sequence, and so does a call with
  \<open>n = -1\<close> (the empty one); neither is rejected.
\<close>

theorem unchecked_budget_and_length:
  "randrest [1, 2 :: int] 2 (Some 1) None 0 rng_cycle
     = Some (Inr ([1, 2], [1, 2], [1, 1]), \<lparr>draws = 1, stop = Some 2\<rparr>)
   \<and> randrest [1, 2 :: int] (- 1) None None 5 rng_cycle
     = Some (Inr ([], [], []), \<lparr>draws = 1, stop = None\<rparr>)"
  by code_simp

section \<open>The dummy element\<close>

text \<open>
  C10: the last of the \<open>n + 1\<close> drawn elements has no influence. Two random sources
  whose candidates agree except for the last element of each lead to the same value
  of \<open>check\<close> in every pass and to the same outcome of the call: the same returned
  sequence with the same values and counts, the same error, or no return at all,
  after the same number of draws.
\<close>

theorem dummy_element_irrelevant:
  assumes "\<forall>k. map_sum id butlast (choice pool (n + 1) rng1 k)
              = map_sum id butlast (choice pool (n + 1) rng2 k)"
  shows "(\<forall>k s1 s2. choice pool (n + 1) rng1 k = Inr s1 \<longrightarrow> choice pool (n + 1) rng2 k = Inr s2
            \<longrightarrow> check_samples pool n repeat balance s1 = check_samples pool n repeat balance s2)
       \<and> randrest pool n repeat balance maxit rng1 = randrest pool n repeat balance maxit rng2"
proof
  show "\<forall>k s1 s2. choice pool (n + 1) rng1 k = Inr s1 \<longrightarrow> choice pool (n + 1) rng2 k = Inr s2
            \<longrightarrow> check_samples pool n repeat balance s1 = check_samples pool n repeat balance s2"
  proof (intro allI impI)
    fix k s1 s2
    assume s1: "choice pool (n + 1) rng1 k = Inr s1" and s2: "choice pool (n + 1) rng2 k = Inr s2"
    have "butlast s1 = butlast s2" using assms[rule_format, of k] s1 s2 by simp
    moreover have "length s1 = length s2" using choice_length[OF s1] choice_length[OF s2] by simp
    ultimately show "check_samples pool n repeat balance s1 = check_samples pool n repeat balance s2"
      by (rule check_samples_butlast)
  qed
next
  show "randrest pool n repeat balance maxit rng1 = randrest pool n repeat balance maxit rng2"
  proof (cases "\<not> is_set repeat \<and> \<not> is_set balance")
    case True
    have "(case choice pool (n + 1) rng1 0 of
              Inl e \<Rightarrow> Some (Inl e, \<lparr>draws = 0, stop = None\<rparr>)
            | Inr samples \<Rightarrow> Some (Inr (result_of samples), \<lparr>draws = 1, stop = None\<rparr>))
        = (case choice pool (n + 1) rng2 0 of
              Inl e \<Rightarrow> Some (Inl e, \<lparr>draws = 0, stop = None\<rparr>)
            | Inr samples \<Rightarrow> Some (Inr (result_of samples), \<lparr>draws = 1, stop = None\<rparr>))"
      using assms[rule_format, of 0]
      by (cases "choice pool (n + 1) rng1 0"; cases "choice pool (n + 1) rng2 0")
         (auto intro: result_of_butlast)
    then show ?thesis using True by (simp add: randrest_def)
  next
    case False
    then have "randrest pool n repeat balance maxit rng
        = (case map_option (apfst (map_sum id butlast))
                  (while_check pool n repeat balance maxit rng 1 0) of
             None \<Rightarrow> None
           | Some (Inl e, t) \<Rightarrow> Some (Inl e, t)
           | Some (Inr s, t) \<Rightarrow>
               Some (Inr (s, sort (remdups s), map (count_list s) (sort (remdups s))), t))" for rng
      unfolding randrest_def randrest_loop_strip[symmetric] by auto
    then show ?thesis
      by (simp only: while_check_butlast[OF assms, of repeat balance maxit 1 0])
  qed
qed

theorem dummy_element_irrelevant_witness:
  "(\<forall>k. choice [1, 2, 3 :: int] (3 + 1) rng_cycle k = Inr [1, 2, 3, 1])
   \<and> (\<forall>k. choice [1, 2, 3 :: int] (3 + 1) rng_dummy k = Inr [1, 2, 3, 2])
   \<and> randrest [1, 2, 3 :: int] 3 (Some 2) None 5 rng_cycle
     = randrest [1, 2, 3 :: int] 3 (Some 2) None 5 rng_dummy"
proof -
  have up: "[0..<4] = [0, 1, 2, 3 :: nat]" by (simp add: upt_rec)
  have a: "\<forall>k. choice [1, 2, 3 :: int] (3 + 1) rng_cycle k = Inr [1, 2, 3, 1]"
    by (simp add: choice_def rng_cycle_def up)
  have b: "\<forall>k. choice [1, 2, 3 :: int] (3 + 1) rng_dummy k = Inr [1, 2, 3, 2]"
    by (simp add: choice_def rng_dummy_def up)
  have "\<forall>k. map_sum id butlast (choice [1, 2, 3 :: int] (3 + 1) rng_cycle k)
           = map_sum id butlast (choice [1, 2, 3 :: int] (3 + 1) rng_dummy k)"
    using a b by simp
  from dummy_element_irrelevant[OF this, of "Some 2" None 5] a b show ?thesis by blast
qed

end
